theory Spec2Isabelle
  imports Complex_Main "HOL-Library.While_Combinator" "HOL-Library.Sublist"
begin

section \<open>Data model of \<open>expressions/expressionscore.py\<close>\<close>

text \<open>
  Python values that can reach the constructors and the operand tuples. An instance of
  \<open>Expression\<close> (or of one of its subclasses) is a reference \<open>VObj a\<close> to the object
  stored at address \<open>a\<close>; the classes define neither \<open>__eq__\<close> nor \<open>__hash__\<close>, so two
  references are the same dictionary key exactly when the addresses are equal. A finite
  float is identified with the rational it denotes; the module never computes with it.
\<close>

datatype pyval =
    VInt int
  | VFloat rat
  | VBool bool
  | VStr string
  | VNone
  | VObj nat

text \<open>The classes of the module, \<open>type(self)\<close> of an object.\<close>

datatype kind =
    KExpression
  | KOperator
  | KAdd
  | KSub
  | KMul
  | KDiv
  | KPow
  | KTerminal
  | KNumber
  | KSymbol

text \<open>The exceptions the module raises or that its statements can raise.\<close>

datatype exn =
    ValueError
  | NotImplementedError
  | AttributeError
  | KeyError
  | RecursionError

text \<open>
  An object has its class, the attribute \<open>value\<close> (set by \<open>Terminal.__init__\<close> only) and
  the attribute \<open>operands\<close>. The heap lists the objects in allocation order: the address
  of an object is its index, and a constructor appends.
\<close>

record obj =
  cls :: kind
  val :: "pyval option"
  operands :: "pyval list"

type_synonym heap = "obj list"

definition lookup :: "heap \<Rightarrow> pyval \<Rightarrow> obj option" where
  "lookup h v = (case v of VObj a \<Rightarrow> (if a < length h then Some (h ! a) else None) | _ \<Rightarrow> None)"

subsection \<open>Constructors\<close>

text \<open>\<open>Expression.__init__(self, *operands)\<close>: stores the tuple it is given.\<close>

definition Expression_init :: "kind \<Rightarrow> pyval list \<Rightarrow> heap \<Rightarrow> pyval \<times> heap" where
  "Expression_init k ops h = (VObj (length h), h @ [\<lparr>cls = k, val = None, operands = ops\<rparr>])"

text \<open>\<open>Terminal.__init__(self, value)\<close>: stores the value, then \<open>super().__init__()\<close>.\<close>

definition Terminal_init :: "kind \<Rightarrow> pyval \<Rightarrow> heap \<Rightarrow> pyval \<times> heap" where
  "Terminal_init k v h = (VObj (length h), h @ [\<lparr>cls = k, val = Some v, operands = []\<rparr>])"

text \<open>\<open>isinstance(value, numbers.Number)\<close>: \<open>int\<close>, \<open>float\<close> and \<open>bool\<close> are registered.\<close>

fun isinstance_numbers_Number :: "pyval \<Rightarrow> bool" where
  "isinstance_numbers_Number (VInt i) = True"
| "isinstance_numbers_Number (VFloat q) = True"
| "isinstance_numbers_Number (VBool b) = True"
| "isinstance_numbers_Number v = False"

fun isinstance_str :: "pyval \<Rightarrow> bool" where
  "isinstance_str (VStr s) = True"
| "isinstance_str v = False"

definition Number_init :: "pyval \<Rightarrow> heap \<Rightarrow> exn + pyval \<times> heap" where
  "Number_init v h =
     (if \<not> isinstance_numbers_Number v then Inl ValueError
      else Inr (Terminal_init KNumber v h))"

definition Symbol_init :: "pyval \<Rightarrow> heap \<Rightarrow> exn + pyval \<times> heap" where
  "Symbol_init v h =
     (if \<not> isinstance_str v then Inl ValueError
      else Inr (Terminal_init KSymbol v h))"

section \<open>Differentiation\<close>

text \<open>
  Python's \<open>==\<close> on the values above: numbers compare by numeric value across \<open>int\<close>,
  \<open>bool\<close> and \<open>float\<close>; everything else compares within its own type, objects by identity.
\<close>

fun py_num :: "pyval \<Rightarrow> rat option" where
  "py_num (VInt i) = Some (of_int i)"
| "py_num (VFloat q) = Some q"
| "py_num (VBool b) = Some (if b then 1 else 0)"
| "py_num v = None"

definition py_eq :: "pyval \<Rightarrow> pyval \<Rightarrow> bool" where
  "py_eq a b = (case (py_num a, py_num b) of (Some x, Some y) \<Rightarrow> x = y | _ \<Rightarrow> a = b)"

text \<open>\<open>isinstance(v, Number)\<close>, for the class \<open>Number\<close> of the module (it has no subclass).\<close>

definition isinstance_Number :: "heap \<Rightarrow> pyval \<Rightarrow> bool" where
  "isinstance_Number h v = (case lookup h v of Some ob \<Rightarrow> cls ob = KNumber | None \<Rightarrow> False)"

text \<open>\<open>f, g = expr.operands\<close>: unpacking a tuple of any other length raises \<open>ValueError\<close>.\<close>

fun unpack2 :: "pyval list \<Rightarrow> exn + pyval \<times> pyval" where
  "unpack2 [f, g] = Inr (f, g)"
| "unpack2 ops = Inl ValueError"

text \<open>
  The list comprehension \<open>[f(op) for op in ops]\<close> for an \<open>f\<close> that allocates: the heap is
  threaded from left to right and the first exception ends the evaluation.
\<close>

fun comprehension ::
  "(heap \<Rightarrow> pyval \<Rightarrow> exn + pyval \<times> heap) \<Rightarrow> heap \<Rightarrow> pyval list \<Rightarrow> exn + pyval list \<times> heap" where
  "comprehension f h [] = Inr ([], h)"
| "comprehension f h (x # xs) =
     (case f h x of
        Inl e \<Rightarrow> Inl e
      | Inr (y, h1) \<Rightarrow>
          (case comprehension f h1 xs of
             Inl e \<Rightarrow> Inl e
           | Inr (ys, h2) \<Rightarrow> Inr (y # ys, h2)))"

text \<open>
  \<open>differentiate(expr, var=var)\<close>, a \<open>singledispatch\<close> function with implementations
  registered for \<open>Number\<close>, \<open>Symbol\<close>, \<open>Add\<close>, \<open>Mul\<close>, \<open>Div\<close> and \<open>Pow\<close>; every other class,
  and every value that is not an expression object, reaches the default implementation,
  which raises \<open>NotImplementedError\<close>. The function takes the heap and returns it with
  the nodes it has constructed, in the order in which Python evaluates the constructor
  calls. The first argument bounds the depth of the recursion, as the interpreter's
  recursion limit does: at depth zero the call raises \<open>RecursionError\<close>.
\<close>

fun differentiate :: "nat \<Rightarrow> pyval \<Rightarrow> heap \<Rightarrow> pyval \<Rightarrow> exn + pyval \<times> heap" where
  "differentiate 0 var h expr = Inl RecursionError"
| "differentiate (Suc n) var h expr =
     (case lookup h expr of
        None \<Rightarrow> Inl NotImplementedError
      | Some ob \<Rightarrow>
          (case cls ob of
             KNumber \<Rightarrow> Number_init (VInt 0) h
           | KSymbol \<Rightarrow>
               (case val ob of
                  None \<Rightarrow> Inl AttributeError
                | Some v \<Rightarrow> if py_eq v var then Number_init (VInt 1) h else Number_init (VInt 0) h)
           | KAdd \<Rightarrow>
               (case comprehension (\<lambda>h' op. differentiate n var h' op) h (operands ob) of
                  Inl e \<Rightarrow> Inl e
                | Inr (ds, h1) \<Rightarrow> Inr (Expression_init KAdd ds h1))
           | KMul \<Rightarrow>
               (case unpack2 (operands ob) of
                  Inl e \<Rightarrow> Inl e
                | Inr (f, g) \<Rightarrow>
                    (case differentiate n var h f of
                       Inl e \<Rightarrow> Inl e
                     | Inr (df, h1) \<Rightarrow>
                         (let (m1, h2) = Expression_init KMul [df, g] h1 in
                          case differentiate n var h2 g of
                            Inl e \<Rightarrow> Inl e
                          | Inr (dg, h3) \<Rightarrow>
                              (let (m2, h4) = Expression_init KMul [dg, f] h3 in
                               Inr (Expression_init KAdd [m1, m2] h4)))))
           | KDiv \<Rightarrow>
               (case unpack2 (operands ob) of
                  Inl e \<Rightarrow> Inl e
                | Inr (f, g) \<Rightarrow>
                    (case differentiate n var h f of
                       Inl e \<Rightarrow> Inl e
                     | Inr (df, h1) \<Rightarrow>
                         (let (m1, h2) = Expression_init KMul [df, g] h1 in
                          case differentiate n var h2 g of
                            Inl e \<Rightarrow> Inl e
                          | Inr (dg, h3) \<Rightarrow>
                              (let (m2, h4) = Expression_init KMul [dg, f] h3;
                                   (sub, h5) = Expression_init KSub [m1, m2] h4 in
                               case Number_init (VInt 2) h5 of
                                 Inl e \<Rightarrow> Inl e
                               | Inr (two, h6) \<Rightarrow>
                                   (let (pw, h7) = Expression_init KPow [g, two] h6 in
                                    Inr (Expression_init KDiv [sub, pw] h7))))))
           | KPow \<Rightarrow>
               (case unpack2 (operands ob) of
                  Inl e \<Rightarrow> Inl e
                | Inr (base, exponent) \<Rightarrow>
                    if isinstance_Number h exponent then
                      (case Number_init (VInt 1) h of
                         Inl e \<Rightarrow> Inl e
                       | Inr (one, h1) \<Rightarrow>
                           (let (sub, h2) = Expression_init KSub [exponent, one] h1;
                                (pw, h3) = Expression_init KPow [base, sub] h2;
                                (m, h4) = Expression_init KMul [exponent, pw] h3 in
                            case differentiate n var h4 base of
                              Inl e \<Rightarrow> Inl e
                            | Inr (db, h5) \<Rightarrow> Inr (Expression_init KMul [m, db] h5)))
                    else Inl NotImplementedError)
           | KSub \<Rightarrow> Inl NotImplementedError
           | KExpression \<Rightarrow> Inl NotImplementedError
           | KOperator \<Rightarrow> Inl NotImplementedError
           | KTerminal \<Rightarrow> Inl NotImplementedError))"

section \<open>Post-order traversal\<close>

text \<open>
  The state of the loop of \<open>postvisitor\<close>: the list \<open>stack\<close> (its last element is the top),
  the dictionary \<open>visited\<close>, and, for the claims about the visitor's invocations, the log
  \<open>calls\<close> of the calls made so far, each with the node, the positional results and the
  keyword arguments it was given. \<open>raised\<close> holds the exception that ended the loop.
  Only objects whose attribute \<open>operands\<close> was read become keys of \<open>visited\<close>, so the
  key is a reference and key equality is identity.
\<close>

record ('r, 'kw) pv_state =
  stack :: "pyval list"
  visited :: "pyval \<rightharpoonup> 'r"
  calls :: "(pyval \<times> 'r list \<times> 'kw) list"
  raised :: "exn option"

type_synonym ('r, 'kw) visitor = "pyval \<Rightarrow> 'r list \<Rightarrow> 'kw \<Rightarrow> exn + 'r"

text \<open>
  One iteration of \<open>while stack:\<close>. Reading \<open>e.operands\<close> of a value that is no
  expression object raises \<open>AttributeError\<close>; \<open>visited[o]\<close> of a missing key raises
  \<open>KeyError\<close>.
\<close>

definition postvisitor_step ::
  "heap \<Rightarrow> ('r, 'kw) visitor \<Rightarrow> 'kw \<Rightarrow> ('r, 'kw) pv_state \<Rightarrow> ('r, 'kw) pv_state" where
  "postvisitor_step h visitor kwargs s =
     (let e = last (stack s); stk = butlast (stack s) in
      case lookup h e of
        None \<Rightarrow> s\<lparr>stack := stk, raised := Some AttributeError\<rparr>
      | Some ob \<Rightarrow>
          (let unvisited_children = filter (\<lambda>op. visited s op = None) (operands ob) in
           if unvisited_children \<noteq> [] then s\<lparr>stack := stk @ [e] @ unvisited_children\<rparr>
           else
             (case those (map (visited s) (operands ob)) of
                None \<Rightarrow> s\<lparr>stack := stk, raised := Some KeyError\<rparr>
              | Some results \<Rightarrow>
                  (case visitor e results kwargs of
                     Inl x \<Rightarrow>
                       s\<lparr>stack := stk, calls := calls s @ [(e, results, kwargs)],
                         raised := Some x\<rparr>
                   | Inr r \<Rightarrow>
                       s\<lparr>stack := stk, visited := (visited s)(e \<mapsto> r),
                         calls := calls s @ [(e, results, kwargs)]\<rparr>))))"

definition pv_init :: "pyval \<Rightarrow> ('r, 'kw) pv_state" where
  "pv_init expr = \<lparr>stack = [expr], visited = Map.empty, calls = [], raised = None\<rparr>"

definition pv_running :: "('r, 'kw) pv_state \<Rightarrow> bool" where
  "pv_running s = (raised s = None \<and> stack s \<noteq> [])"

text \<open>
  \<open>postvisitor(expr, visitor, **kwargs)\<close>. The result is \<open>None\<close> when the loop does not
  end; otherwise the exception or the returned value \<open>visited[expr]\<close>, with the log of
  the visitor's calls.
\<close>

definition postvisitor ::
  "heap \<Rightarrow> pyval \<Rightarrow> ('r, 'kw) visitor \<Rightarrow> 'kw \<Rightarrow> ((exn + 'r) \<times> (pyval \<times> 'r list \<times> 'kw) list) option" where
  "postvisitor h expr visitor kwargs =
     (case while_option pv_running (postvisitor_step h visitor kwargs) (pv_init expr) of
        None \<Rightarrow> None
      | Some s \<Rightarrow>
          Some (case raised s of
                  Some x \<Rightarrow> Inl x
                | None \<Rightarrow> (case visited s expr of None \<Rightarrow> Inl KeyError | Some r \<Rightarrow> Inr r),
                calls s))"

section \<open>Notions used by the statements\<close>

text \<open>
  An expression DAG: every operand of every node is an expression object that was
  allocated before the node. The constructors take existing objects as operands, so the
  graphs that client code builds from expressions have this shape.
\<close>

definition expr_dag :: "heap \<Rightarrow> bool" where
  "expr_dag h =
     list_all (\<lambda>(a, ob). list_all (\<lambda>op. case op of VObj b \<Rightarrow> b < a | _ \<Rightarrow> False) (operands ob))
       (enumerate 0 h)"

text \<open>
  The dictionary that a log of visitor calls leaves behind: each call that returned
  stores its result under its node, a later call on the same node overwriting it.
\<close>

definition memo_of ::
  "('r, 'kw) visitor \<Rightarrow> (pyval \<times> 'r list \<times> 'kw) list \<Rightarrow> (pyval \<rightharpoonup> 'r)" where
  "memo_of visitor cs =
     fold (\<lambda>(e, results, kw) m. case visitor e results kw of Inl x \<Rightarrow> m | Inr r \<Rightarrow> m(e \<mapsto> r))
       cs Map.empty"

text \<open>The parts of a logged call, and what the visitor answered to it.\<close>

definition call_node :: "pyval \<times> 'r list \<times> 'kw \<Rightarrow> pyval" where
  "call_node c = fst c"

definition call_results :: "pyval \<times> 'r list \<times> 'kw \<Rightarrow> 'r list" where
  "call_results c = fst (snd c)"

definition call_kwargs :: "pyval \<times> 'r list \<times> 'kw \<Rightarrow> 'kw" where
  "call_kwargs c = snd (snd c)"

definition call_value :: "('r, 'kw) visitor \<Rightarrow> pyval \<times> 'r list \<times> 'kw \<Rightarrow> exn + 'r" where
  "call_value visitor c = (case c of (e, results, kw) \<Rightarrow> visitor e results kw)"

text \<open>
  The heaps that the constructors of the module build, starting from no object at all.
  An operand or a stored value that is an object exists already when it is passed.
\<close>

inductive constructed :: "heap \<Rightarrow> bool" where
  empty: "constructed []"
| expression:
    "constructed h \<Longrightarrow> k \<in> {KExpression, KOperator, KAdd, KSub, KMul, KDiv, KPow} \<Longrightarrow>
     \<forall>op\<in>set ops. \<forall>b. op = VObj b \<longrightarrow> b < length h \<Longrightarrow>
     Expression_init k ops h = (r, h') \<Longrightarrow> constructed h'"
| terminal:
    "constructed h \<Longrightarrow> \<forall>b. v = VObj b \<longrightarrow> b < length h \<Longrightarrow>
     Terminal_init KTerminal v h = (r, h') \<Longrightarrow> constructed h'"
| number:
    "constructed h \<Longrightarrow> Number_init v h = Inr (r, h') \<Longrightarrow> constructed h'"
| symbol:
    "constructed h \<Longrightarrow> Symbol_init v h = Inr (r, h') \<Longrightarrow> constructed h'"

text \<open>
  \<open>reaches h v w\<close>: the value \<open>w\<close> is \<open>v\<close> itself or is found from \<open>v\<close> by following
  operand tuples, that is, \<open>w\<close> belongs to the expression rooted at \<open>v\<close>.
\<close>

inductive reaches :: "heap \<Rightarrow> pyval \<Rightarrow> pyval \<Rightarrow> bool" for h :: heap and v :: pyval where
  root: "reaches h v v"
| operand: "reaches h v w \<Longrightarrow> lookup h w = Some ob \<Longrightarrow> op \<in> set (operands ob) \<Longrightarrow> reaches h v op"

text \<open>
  \<open>grows h h'\<close>: the heap \<open>h'\<close> is \<open>h\<close> followed by new nodes, all of them numbers or
  operators of the five arithmetic classes.
\<close>

definition grows :: "heap \<Rightarrow> heap \<Rightarrow> bool" where
  "grows h h' =
     (\<exists>ext. h' = h @ ext \<and> (\<forall>ob\<in>set ext. cls ob \<in> {KNumber, KAdd, KSub, KMul, KDiv, KPow}))"

text \<open>
  The four nodes that the \<open>Pow\<close> implementation constructs before it differentiates the
  base: \<open>Number(1)\<close>, \<open>Sub(exponent, 1)\<close>, \<open>Pow(base, Sub(exponent, 1))\<close> and
  \<open>Mul(exponent, Pow(base, Sub(exponent, 1)))\<close>.
\<close>

definition pow_rule_heap :: "heap \<Rightarrow> pyval \<Rightarrow> pyval \<Rightarrow> heap" where
  "pow_rule_heap h base exponent =
     h @ [\<lparr>cls = KNumber, val = Some (VInt 1), operands = []\<rparr>,
          \<lparr>cls = KSub, val = None, operands = [exponent, VObj (length h)]\<rparr>,
          \<lparr>cls = KPow, val = None, operands = [base, VObj (length h + 1)]\<rparr>,
          \<lparr>cls = KMul, val = None, operands = [exponent, VObj (length h + 2)]\<rparr>]"

text \<open>
  The invariant of the loop of \<open>postvisitor\<close> on an expression DAG, for the root \<open>expr\<close>:
  the stack holds objects and has the root at its bottom; \<open>visited\<close> is the dictionary
  left by the logged calls, and a visited node has all its operands visited; every logged
  call received the keyword arguments and the results stored for the operands of its node
  at that moment; only the last call can have raised.
\<close>

definition pv_inv ::
  "heap \<Rightarrow> pyval \<Rightarrow> ('r, 'kw) visitor \<Rightarrow> 'kw \<Rightarrow> ('r, 'kw) pv_state \<Rightarrow> bool" where
  "pv_inv h expr visitor kw s =
     ((\<forall>v\<in>set (stack s). \<exists>a<length h. v = VObj a) \<and>
      (\<forall>v. visited s v \<noteq> None \<longrightarrow>
         (\<exists>a<length h. v = VObj a \<and> (\<forall>op\<in>set (operands (h ! a)). visited s op \<noteq> None))) \<and>
      memo_of visitor (calls s) = visited s \<and>
      (\<forall>c\<in>set (calls s). call_kwargs c = kw) \<and>
      (\<forall>i<length (calls s). \<exists>a<length h. call_node (calls s ! i) = VObj a \<and>
         those (map (memo_of visitor (take i (calls s))) (operands (h ! a)))
           = Some (call_results (calls s ! i))) \<and>
      (stack s \<noteq> [] \<longrightarrow> hd (stack s) = expr) \<and>
      (stack s = [] \<longrightarrow> calls s \<noteq> [] \<and> call_node (last (calls s)) = expr) \<and>
      (\<forall>c\<in>set (butlast (calls s)). \<exists>r. call_value visitor c = Inr r) \<and>
      (case raised s of
         Some x \<Rightarrow> calls s \<noteq> [] \<and> call_value visitor (last (calls s)) = Inl x
       | None \<Rightarrow> \<forall>c\<in>set (calls s). \<exists>r. call_value visitor c = Inr r))"

text \<open>
  The quantity that decreases with every iteration, in the lexicographic order: the
  number of objects not yet visited, then the height of the stack while its top is a
  visited node, and the address of the top once it is not.
\<close>

definition pv_measure :: "heap \<Rightarrow> ('r, 'kw) pv_state \<Rightarrow> nat \<times> nat" where
  "pv_measure h s =
     (if \<not> pv_running s then (0, 0)
      else (card (VObj ` {..<length h} - dom (visited s)),
            (if visited s (last (stack s)) \<noteq> None then length h + 1 + length (stack s)
             else (case last (stack s) of VObj a \<Rightarrow> a + 1 | _ \<Rightarrow> 0))))"

subsection \<open>Example heaps\<close>

text \<open>\<open>x = Symbol("x"); Mul(x, x)\<close>: one symbol object, twice an operand.\<close>

definition heap_mul_shared :: heap where
  "heap_mul_shared =
     [\<lparr>cls = KSymbol, val = Some (VStr ''x''), operands = []\<rparr>,
      \<lparr>cls = KMul, val = None, operands = [VObj 0, VObj 0]\<rparr>]"

text \<open>\<open>x = Symbol("x"); y = Symbol("y"); Sub(x, y); Add(x, y); Div(x, y)\<close>.\<close>

definition heap_sub :: heap where
  "heap_sub =
     [\<lparr>cls = KSymbol, val = Some (VStr ''x''), operands = []\<rparr>,
      \<lparr>cls = KSymbol, val = Some (VStr ''y''), operands = []\<rparr>,
      \<lparr>cls = KSub, val = None, operands = [VObj 0, VObj 1]\<rparr>,
      \<lparr>cls = KAdd, val = None, operands = [VObj 0, VObj 1]\<rparr>,
      \<lparr>cls = KDiv, val = None, operands = [VObj 0, VObj 1]\<rparr>]"

text \<open>\<open>x = Symbol("x"); y = Symbol("y"); p = Pow(x, y); two = Number(2); Pow(p, two)\<close>.\<close>

definition heap_pow :: heap where
  "heap_pow =
     [\<lparr>cls = KSymbol, val = Some (VStr ''x''), operands = []\<rparr>,
      \<lparr>cls = KSymbol, val = Some (VStr ''y''), operands = []\<rparr>,
      \<lparr>cls = KPow, val = None, operands = [VObj 0, VObj 1]\<rparr>,
      \<lparr>cls = KNumber, val = Some (VInt 2), operands = []\<rparr>,
      \<lparr>cls = KPow, val = None, operands = [VObj 2, VObj 3]\<rparr>]"

text \<open>\<open>x = Symbol("x"); three = Number(3); Pow(x, three)\<close>.\<close>

definition heap_cube :: heap where
  "heap_cube =
     [\<lparr>cls = KSymbol, val = Some (VStr ''x''), operands = []\<rparr>,
      \<lparr>cls = KNumber, val = Some (VInt 3), operands = []\<rparr>,
      \<lparr>cls = KPow, val = None, operands = [VObj 0, VObj 1]\<rparr>]"

text \<open>\<open>a = Symbol("a"); b = Symbol("b"); Add(a, b)\<close>.\<close>

definition heap_add_ab :: heap where
  "heap_add_ab =
     [\<lparr>cls = KSymbol, val = Some (VStr ''a''), operands = []\<rparr>,
      \<lparr>cls = KSymbol, val = Some (VStr ''b''), operands = []\<rparr>,
      \<lparr>cls = KAdd, val = None, operands = [VObj 0, VObj 1]\<rparr>]"

text \<open>
  A visitor that answers a symbol with its name and any other node with the
  concatenation of the results of its operands, in the order it receives them.
\<close>

definition names_visitor :: "heap \<Rightarrow> (string, unit) visitor" where
  "names_visitor h e results kw =
     Inr (case lookup h e of
            Some ob \<Rightarrow> (case val ob of Some (VStr s) \<Rightarrow> s | _ \<Rightarrow> concat results)
          | None \<Rightarrow> [])"

section \<open>Construction\<close>

lemma lookup_new_node: "lookup (h @ [ob]) (VObj (length h)) = Some ob"
  by (simp add: lookup_def)

lemma nth_old_node: "a < length h \<Longrightarrow> (h @ ext) ! a = h ! a"
  by (simp add: nth_append)

lemma Expression_init_stores:
  "Expression_init k ops h = (r, h') \<Longrightarrow>
     lookup h' r = Some \<lparr>cls = k, val = None, operands = ops\<rparr> \<and> (\<forall>a<length h. h' ! a = h ! a)"
  by (auto simp: Expression_init_def lookup_new_node nth_old_node)

lemma Terminal_init_stores:
  "Terminal_init k v h = (r, h') \<Longrightarrow>
     lookup h' r = Some \<lparr>cls = k, val = Some v, operands = []\<rparr> \<and> (\<forall>a<length h. h' ! a = h ! a)"
  by (auto simp: Terminal_init_def lookup_new_node nth_old_node)

lemma Number_init_stores:
  "Number_init v h = Inr (r, h') \<Longrightarrow>
     lookup h' r = Some \<lparr>cls = KNumber, val = Some v, operands = []\<rparr> \<and> (\<forall>a<length h. h' ! a = h ! a)"
  by (auto simp: Number_init_def split: if_splits dest: Terminal_init_stores)

lemma Symbol_init_stores:
  "Symbol_init v h = Inr (r, h') \<Longrightarrow>
     lookup h' r = Some \<lparr>cls = KSymbol, val = Some v, operands = []\<rparr> \<and> (\<forall>a<length h. h' ! a = h ! a)"
  by (auto simp: Symbol_init_def split: if_splits dest: Terminal_init_stores)

lemma Number_init_succeeds:
  "isinstance_numbers_Number v \<Longrightarrow> \<exists>r h'. Number_init v h = Inr (r, h')"
  by (simp add: Number_init_def Terminal_init_def)

lemma Symbol_init_succeeds:
  "isinstance_str v \<Longrightarrow> \<exists>r h'. Symbol_init v h = Inr (r, h')"
  by (simp add: Symbol_init_def Terminal_init_def)

text \<open>
  Claim C7. Constructing a \<open>Number\<close> raises the type error of the module (\<open>ValueError\<close>)
  exactly when the value is not numeric, and constructing a \<open>Symbol\<close> raises it when the
  name is not a string. There is no other validation: a numeric value, respectively a
  string, is always accepted, and the new node stores the value as supplied.
\<close>

theorem construction_type_checks:
  "(Number_init v h = Inl ValueError \<longleftrightarrow> \<not> isinstance_numbers_Number v) \<and>
   (\<not> isinstance_str v \<longrightarrow> Symbol_init v h = Inl ValueError) \<and>
   (isinstance_numbers_Number v \<longrightarrow>
      (\<exists>r h'. Number_init v h = Inr (r, h') \<and>
               lookup h' r = Some \<lparr>cls = KNumber, val = Some v, operands = []\<rparr>)) \<and>
   (isinstance_str v \<longrightarrow>
      (\<exists>r h'. Symbol_init v h = Inr (r, h') \<and>
               lookup h' r = Some \<lparr>cls = KSymbol, val = Some v, operands = []\<rparr>))"
proof (intro conjI impI)
  show "Number_init v h = Inl ValueError \<longleftrightarrow> \<not> isinstance_numbers_Number v"
    by (simp add: Number_init_def)
  show "Symbol_init v h = Inl ValueError" if "\<not> isinstance_str v"
    using that by (simp add: Symbol_init_def)
  show "\<exists>r h'. Number_init v h = Inr (r, h') \<and>
               lookup h' r = Some \<lparr>cls = KNumber, val = Some v, operands = []\<rparr>"
    if "isinstance_numbers_Number v"
    using Number_init_succeeds[OF that, of h] Number_init_stores by blast
  show "\<exists>r h'. Symbol_init v h = Inr (r, h') \<and>
               lookup h' r = Some \<lparr>cls = KSymbol, val = Some v, operands = []\<rparr>"
    if "isinstance_str v"
    using Symbol_init_succeeds[OF that, of h] Symbol_init_stores by blast
qed

theorem construction_type_checks_witness:
  "Number_init (VStr ''not a number'') [] = Inl ValueError \<and>
   Symbol_init (VInt 42) [] = Inl ValueError \<and>
   (\<exists>r h'. Number_init (VInt 42) [] = Inr (r, h') \<and>
            lookup h' r = Some \<lparr>cls = KNumber, val = Some (VInt 42), operands = []\<rparr>) \<and>
   (\<exists>r h'. Symbol_init (VStr ''x'') [] = Inr (r, h') \<and>
            lookup h' r = Some \<lparr>cls = KSymbol, val = Some (VStr ''x''), operands = []\<rparr>)"
  using construction_type_checks[of "VStr ''not a number''" "[]"]
        construction_type_checks[of "VInt 42" "[]"]
        construction_type_checks[of "VStr ''x''" "[]"]
  by simp

text \<open>
  Claim C5, as the code has it. Constructing a \<open>Symbol\<close> fails for every value that is
  not a string and succeeds for every string, the empty one included; the node stores
  the name it was given.
\<close>

theorem symbol_accepts_every_string:
  "(\<not> isinstance_str v \<longrightarrow> Symbol_init v h = Inl ValueError) \<and>
   (\<exists>r h'. Symbol_init (VStr s) h = Inr (r, h') \<and>
            lookup h' r = Some \<lparr>cls = KSymbol, val = Some (VStr s), operands = []\<rparr>)"
proof
  show "\<not> isinstance_str v \<longrightarrow> Symbol_init v h = Inl ValueError"
    by (simp add: Symbol_init_def)
  have "isinstance_str (VStr s)" by simp
  from Symbol_init_succeeds[OF this, of h] Symbol_init_stores
  show "\<exists>r h'. Symbol_init (VStr s) h = Inr (r, h') \<and>
            lookup h' r = Some \<lparr>cls = KSymbol, val = Some (VStr s), operands = []\<rparr>"
    by blast
qed

theorem symbol_accepts_every_string_witness:
  "Symbol_init VNone [] = Inl ValueError \<and>
   (\<exists>r h'. Symbol_init (VStr '''') [] = Inr (r, h') \<and>
            lookup h' r = Some \<lparr>cls = KSymbol, val = Some (VStr ''''), operands = []\<rparr>)"
  using symbol_accepts_every_string[of VNone "[]" "''''"] by simp

text \<open>The empty string is not a non-empty string, and \<open>Symbol("")\<close> does not fail.\<close>

theorem symbol_empty_name_counterexample:
  "Symbol_init (VStr '''') [] =
     Inr (VObj 0, [\<lparr>cls = KSymbol, val = Some (VStr ''''), operands = []\<rparr>])"
  by (simp add: Symbol_init_def Terminal_init_def)

lemma constructed_terminals_childless:
  "constructed h \<Longrightarrow> a < length h \<Longrightarrow> cls (h ! a) \<in> {KTerminal, KNumber, KSymbol} \<Longrightarrow>
     operands (h ! a) = []"
proof (induction arbitrary: a rule: constructed.induct)
  case empty
  then show ?case by simp
next
  case (expression h k ops r h')
  then show ?case
    by (cases "a < length h") (auto simp: Expression_init_def nth_append)
next
  case (terminal h v r h')
  then show ?case
    by (cases "a < length h") (auto simp: Terminal_init_def nth_append)
next
  case (number h v r h')
  then show ?case
    by (cases "a < length h")
       (auto simp: Number_init_def Terminal_init_def nth_append split: if_splits)
next
  case (symbol h v r h')
  then show ?case
    by (cases "a < length h")
       (auto simp: Symbol_init_def Terminal_init_def nth_append split: if_splits)
qed

lemma constructed_heap_mul_shared: "constructed heap_mul_shared"
proof -
  have "constructed [\<lparr>cls = KSymbol, val = Some (VStr ''x''), operands = []\<rparr>]"
    by (rule constructed.symbol[OF constructed.empty, of "VStr ''x''" "VObj 0"])
       (simp add: Symbol_init_def Terminal_init_def)
  then show ?thesis
    unfolding heap_mul_shared_def
    by (rule constructed.expression[where k = KMul and ops = "[VObj 0, VObj 0]" and r = "VObj 1"])
       (simp_all add: Expression_init_def)
qed

text \<open>
  Claim C4, as the code has it. In every heap built by the constructors a literal or
  symbol node has no operand. An operator node holds exactly the tuple it was
  constructed with, whatever its length and whatever its elements: the constructor
  checks neither. Constructing a node changes no existing node.
\<close>

theorem operands_fixed_at_construction:
  assumes "constructed h"
  shows "(\<forall>a<length h. cls (h ! a) \<in> {KTerminal, KNumber, KSymbol} \<longrightarrow> operands (h ! a) = []) \<and>
         (\<forall>k ops. case Expression_init k ops h of
                     (r, h') \<Rightarrow> lookup h' r = Some \<lparr>cls = k, val = None, operands = ops\<rparr> \<and>
                                (\<forall>a<length h. h' ! a = h ! a)) \<and>
         (\<forall>v r h'. Number_init v h = Inr (r, h') \<or> Symbol_init v h = Inr (r, h') \<longrightarrow>
                     (\<exists>ob. lookup h' r = Some ob \<and> operands ob = []) \<and>
                     (\<forall>a<length h. h' ! a = h ! a))"
proof (intro conjI allI impI)
  show "operands (h ! a) = []"
    if "a < length h" "cls (h ! a) \<in> {KTerminal, KNumber, KSymbol}" for a
    using assms that by (rule constructed_terminals_childless)
  show "case Expression_init k ops h of
          (r, h') \<Rightarrow> lookup h' r = Some \<lparr>cls = k, val = None, operands = ops\<rparr> \<and>
                     (\<forall>a<length h. h' ! a = h ! a)" for k ops
    using Expression_init_stores[of k ops h] by (cases "Expression_init k ops h") simp
  show "\<exists>ob. lookup h' r = Some ob \<and> operands ob = []"
    if "Number_init v h = Inr (r, h') \<or> Symbol_init v h = Inr (r, h')" for v r h'
    using that Number_init_stores[of v h r h'] Symbol_init_stores[of v h r h'] by auto
  show "h' ! a = h ! a"
    if "Number_init v h = Inr (r, h') \<or> Symbol_init v h = Inr (r, h')" "a < length h"
    for v r h' a
    using that Number_init_stores[of v h r h'] Symbol_init_stores[of v h r h'] by auto
qed

theorem operands_fixed_at_construction_witness:
  "constructed heap_mul_shared \<and>
   operands (heap_mul_shared ! 0) = [] \<and>
   (case Expression_init KAdd [VObj 1, VObj 0, VInt 7] heap_mul_shared of
      (r, h') \<Rightarrow> lookup h' r = Some \<lparr>cls = KAdd, val = None, operands = [VObj 1, VObj 0, VInt 7]\<rparr> \<and>
                 (\<forall>a<length heap_mul_shared. h' ! a = heap_mul_shared ! a))"
  using operands_fixed_at_construction[OF constructed_heap_mul_shared]
        constructed_heap_mul_shared
  by (simp add: heap_mul_shared_def)

text \<open>
  \<open>Add(3, None, "a")\<close>: three operands, none of them an expression, and the constructor
  returns the node instead of rejecting the call.
\<close>

theorem operator_arity_counterexample:
  "Expression_init KAdd [VInt 3, VNone, VStr ''a''] [] =
     (VObj 0, [\<lparr>cls = KAdd, val = None, operands = [VInt 3, VNone, VStr ''a'']\<rparr>])"
  by (simp add: Expression_init_def)

section \<open>Differentiation\<close>

lemma grows_refl: "grows h h"
  by (simp add: grows_def)

lemma grows_trans: "grows h1 h2 \<Longrightarrow> grows h2 h3 \<Longrightarrow> grows h1 h3"
  by (auto simp: grows_def)

lemma grows_length: "grows h h' \<Longrightarrow> length h \<le> length h'"
  by (auto simp: grows_def)

lemma grows_nth: "grows h h' \<Longrightarrow> a < length h \<Longrightarrow> h' ! a = h ! a"
  by (auto simp: grows_def nth_append)

lemma grows_new:
  "grows h h' \<Longrightarrow> length h \<le> a \<Longrightarrow> a < length h' \<Longrightarrow>
     cls (h' ! a) \<in> {KNumber, KAdd, KSub, KMul, KDiv, KPow}"
  by (auto simp: grows_def nth_append)

lemma Expression_init_grows:
  assumes "Expression_init k ops h = (r, h')" "k \<in> {KAdd, KSub, KMul, KDiv, KPow}"
  shows "grows h h' \<and> length h < length h' \<and> r = VObj (length h' - 1)"
  using assms by (auto simp: Expression_init_def grows_def)

lemma Number_init_grows:
  assumes "Number_init v h = Inr (r, h')"
  shows "grows h h' \<and> length h < length h' \<and> r = VObj (length h' - 1)"
  using assms by (auto simp: Number_init_def Terminal_init_def grows_def split: if_splits)

lemma comprehension_grows:
  assumes "\<And>h x y h'. f h x = Inr (y, h') \<Longrightarrow> grows h h'"
  shows "comprehension f h xs = Inr (ys, h') \<Longrightarrow> grows h h'"
proof (induction xs arbitrary: h ys)
  case Nil
  then show ?case by (simp add: grows_refl)
next
  case (Cons x xs)
  then show ?case
    by (auto split: sum.splits prod.splits dest!: assms intro: grows_trans)
qed

text \<open>
  A successful call only appends: the heap it returns is the heap it was given followed
  by new number and operator nodes, and the node it returns is the last of them.
\<close>

lemma differentiate_grows:
  "differentiate n var h e = Inr (r, h') \<Longrightarrow>
     grows h h' \<and> length h < length h' \<and> r = VObj (length h' - 1)"
proof (induction n arbitrary: h e r h')
  case 0
  then show ?case by simp
next
  case (Suc n)
  have IH: "\<And>h e r h'. differentiate n var h e = Inr (r, h') \<Longrightarrow> grows h h'"
    by (auto dest: Suc.IH)
  have comp: "\<And>h xs ys h'.
      comprehension (\<lambda>h' op. differentiate n var h' op) h xs = Inr (ys, h') \<Longrightarrow> grows h h'"
    by (rule comprehension_grows[where f = "\<lambda>h' op. differentiate n var h' op"]) (auto dest: IH)
  from Suc.prems obtain ob where ob: "lookup h e = Some ob"
    by (auto split: option.splits)
  show ?case
  proof (cases "cls ob")
    case KNumber
    with Suc.prems ob show ?thesis by (auto dest: Number_init_grows)
  next
    case KSymbol
    with Suc.prems ob show ?thesis
      by (auto split: option.splits if_splits dest: Number_init_grows)
  next
    case KAdd
    with Suc.prems ob obtain ds h1 where
      "comprehension (\<lambda>h' op. differentiate n var h' op) h (operands ob) = Inr (ds, h1)"
      "Expression_init KAdd ds h1 = (r, h')"
      by (auto split: sum.splits)
    with comp[of h "operands ob" ds h1] Expression_init_grows[of KAdd ds h1 r h']
    show ?thesis by (auto intro: grows_trans dest: grows_length)
  next
    case KMul
    with Suc.prems ob obtain f g df h1 m1 h2 dg h3 m2 h4 where
      "differentiate n var h f = Inr (df, h1)"
      "Expression_init KMul [df, g] h1 = (m1, h2)"
      "differentiate n var h2 g = Inr (dg, h3)"
      "Expression_init KMul [dg, f] h3 = (m2, h4)"
      "Expression_init KAdd [m1, m2] h4 = (r, h')"
      by (auto split: sum.splits prod.splits)
    then have "grows h h1" "grows h1 h2" "grows h2 h3" "grows h3 h4"
      "grows h4 h' \<and> length h4 < length h' \<and> r = VObj (length h' - 1)"
      by (auto dest: IH Expression_init_grows)
    then show ?thesis
      by (meson grows_trans grows_length le_less_trans)
  next
    case KDiv
    with Suc.prems ob obtain f g df h1 m1 h2 dg h3 m2 h4 sub h5 two h6 pw h7 where
      "differentiate n var h f = Inr (df, h1)"
      "Expression_init KMul [df, g] h1 = (m1, h2)"
      "differentiate n var h2 g = Inr (dg, h3)"
      "Expression_init KMul [dg, f] h3 = (m2, h4)"
      "Expression_init KSub [m1, m2] h4 = (sub, h5)"
      "Number_init (VInt 2) h5 = Inr (two, h6)"
      "Expression_init KPow [g, two] h6 = (pw, h7)"
      "Expression_init KDiv [sub, pw] h7 = (r, h')"
      by (auto split: sum.splits prod.splits)
    then have "grows h h1" "grows h1 h2" "grows h2 h3" "grows h3 h4" "grows h4 h5"
      "grows h5 h6" "grows h6 h7"
      "grows h7 h' \<and> length h7 < length h' \<and> r = VObj (length h' - 1)"
      by (auto dest: IH Expression_init_grows Number_init_grows)
    then show ?thesis
      by (meson grows_trans grows_length le_less_trans)
  next
    case KPow
    with Suc.prems ob obtain base exponent one h1 sub h2 pw h3 m h4 db h5 where
      "Number_init (VInt 1) h = Inr (one, h1)"
      "Expression_init KSub [exponent, one] h1 = (sub, h2)"
      "Expression_init KPow [base, sub] h2 = (pw, h3)"
      "Expression_init KMul [exponent, pw] h3 = (m, h4)"
      "differentiate n var h4 base = Inr (db, h5)"
      "Expression_init KMul [m, db] h5 = (r, h')"
      by (auto split: sum.splits prod.splits if_splits)
    then have "grows h h1" "grows h1 h2" "grows h2 h3" "grows h3 h4" "grows h4 h5"
      "grows h5 h' \<and> length h5 < length h' \<and> r = VObj (length h' - 1)"
      by (auto dest: IH Expression_init_grows Number_init_grows)
    then show ?thesis
      by (meson grows_trans grows_length le_less_trans)
  qed (use Suc.prems ob in auto)
qed

text \<open>The \<open>Pow\<close> implementation on a node with two operands, its constructor calls carried out.\<close>

lemma differentiate_Pow_unfold:
  assumes "lookup h e = Some ob" "cls ob = KPow" "operands ob = [base, exponent]"
  shows "differentiate (Suc n) var h e =
           (if isinstance_Number h exponent then
              (case differentiate n var (pow_rule_heap h base exponent) base of
                 Inl x \<Rightarrow> Inl x
               | Inr (db, h5) \<Rightarrow>
                   Inr (VObj (length h5),
                        h5 @ [\<lparr>cls = KMul, val = None, operands = [VObj (length h + 3), db]\<rparr>]))
            else Inl NotImplementedError)"
  using assms
  by (simp add: Number_init_def Terminal_init_def Expression_init_def pow_rule_heap_def
                numeral_3_eq_3
           split: sum.splits prod.splits)

lemma pow_rule_heap_grows: "grows h (pow_rule_heap h base exponent)"
  by (simp add: grows_def pow_rule_heap_def)


text \<open>
  Claim C2. On the heap of \<open>x\<close>, \<open>y\<close>, \<open>Sub(x, y)\<close>, \<open>Add(x, y)\<close> and \<open>Div(x, y)\<close>,
  differentiating the \<open>Sub\<close> node raises \<open>NotImplementedError\<close>: no implementation is
  registered for \<open>Sub\<close>. The sibling \<open>Add\<close> node is differentiated operand by operand,
  and the derivative of the \<open>Div\<close> node is a node whose first operand is a \<open>Sub\<close> node,
  which \<open>differentiate\<close> cannot differentiate in turn.
\<close>

theorem differentiate_Sub_raises:
  "differentiate 2 (VStr ''x'') heap_sub (VObj 2) = Inl NotImplementedError \<and>
   differentiate 2 (VStr ''x'') heap_sub (VObj 3) =
     Inr (VObj 7,
          heap_sub @
          [\<lparr>cls = KNumber, val = Some (VInt 1), operands = []\<rparr>,
           \<lparr>cls = KNumber, val = Some (VInt 0), operands = []\<rparr>,
           \<lparr>cls = KAdd, val = None, operands = [VObj 5, VObj 6]\<rparr>]) \<and>
   (case differentiate 2 (VStr ''x'') heap_sub (VObj 4) of
      Inl x \<Rightarrow> False
    | Inr (d, h') \<Rightarrow> differentiate 3 (VStr ''x'') h' d = Inl NotImplementedError)"
  by code_simp



text \<open>
  Claim C3, as the code has it. For a \<open>Pow\<close> node with two operands: when the exponent
  is not a \<open>Number\<close> node the call raises \<open>NotImplementedError\<close>; when it is one, the
  \<open>Pow\<close> implementation raises nothing of its own, and the call raises exactly the
  exceptions that differentiating the base raises.
\<close>

theorem differentiate_Pow_errors:
  assumes "lookup h e = Some ob" and "cls ob = KPow" and "operands ob = [base, exponent]"
  shows "(\<not> isinstance_Number h exponent \<longrightarrow>
            differentiate (Suc n) var h e = Inl NotImplementedError) \<and>
         (isinstance_Number h exponent \<longrightarrow>
            (\<forall>x. differentiate (Suc n) var h e = Inl x \<longleftrightarrow>
                 differentiate n var (pow_rule_heap h base exponent) base = Inl x))"
  by (auto simp: differentiate_Pow_unfold[OF assms] simp del: differentiate.simps
           split: sum.splits)

theorem differentiate_Pow_errors_witness:
  "lookup heap_pow (VObj 2) = Some \<lparr>cls = KPow, val = None, operands = [VObj 0, VObj 1]\<rparr> \<and>
   \<not> isinstance_Number heap_pow (VObj 1) \<and>
   differentiate 1 (VStr ''x'') heap_pow (VObj 2) = Inl NotImplementedError \<and>
   lookup heap_cube (VObj 2) = Some \<lparr>cls = KPow, val = None, operands = [VObj 0, VObj 1]\<rparr> \<and>
   isinstance_Number heap_cube (VObj 1) \<and>
   (\<forall>x. differentiate 2 (VStr ''x'') heap_cube (VObj 2) = Inl x \<longleftrightarrow>
        differentiate 1 (VStr ''x'') (pow_rule_heap heap_cube (VObj 0) (VObj 1)) (VObj 0) = Inl x)"
proof -
  have l1: "lookup heap_pow (VObj 2)
              = Some \<lparr>cls = KPow, val = None, operands = [VObj 0, VObj 1]\<rparr>"
    by (simp add: heap_pow_def lookup_def)
  have n1: "\<not> isinstance_Number heap_pow (VObj 1)"
    by (simp add: heap_pow_def lookup_def isinstance_Number_def)
  have l2: "lookup heap_cube (VObj 2)
              = Some \<lparr>cls = KPow, val = None, operands = [VObj 0, VObj 1]\<rparr>"
    by (simp add: heap_cube_def lookup_def)
  have i2: "isinstance_Number heap_cube (VObj 1)"
    by (simp add: heap_cube_def lookup_def isinstance_Number_def)
  from differentiate_Pow_errors[where n = 0 and var = "VStr ''x''", OF l1]
       differentiate_Pow_errors[where n = 1 and var = "VStr ''x''", OF l2] l1 n1 l2 i2
  show ?thesis
    by (simp add: numeral_2_eq_2 del: differentiate.simps)
qed

text \<open>
  \<open>Pow(Pow(x, y), Number(2))\<close>: the exponent is a \<open>Number\<close> node and the call raises
  \<open>NotImplementedError\<close> all the same, the one that differentiating the base raises.
\<close>

theorem differentiate_Pow_counterexample:
  "lookup heap_pow (VObj 4) = Some \<lparr>cls = KPow, val = None, operands = [VObj 2, VObj 3]\<rparr> \<and>
   isinstance_Number heap_pow (VObj 3) \<and>
   differentiate 3 (VStr ''x'') heap_pow (VObj 4) = Inl NotImplementedError"
  by code_simp

text \<open>
  Claim C9. When \<open>differentiate\<close> returns, every node of the heap it was given is
  unchanged: class, value and operand tuple. The node it returns is a new one, the last
  allocated, and every node it has added is a \<open>Number\<close> or an operator of the five
  arithmetic classes.
\<close>

theorem differentiate_frame:
  assumes "differentiate n var h e = Inr (r, h')"
  shows "(\<forall>a<length h. h' ! a = h ! a) \<and>
         length h < length h' \<and> r = VObj (length h' - 1) \<and>
         (\<forall>a. length h \<le> a \<and> a < length h' \<longrightarrow>
              cls (h' ! a) \<in> {KNumber, KAdd, KSub, KMul, KDiv, KPow})"
  using differentiate_grows[OF assms] by (auto dest: grows_nth grows_new)

theorem differentiate_frame_witness:
  "differentiate 2 (VStr ''x'') heap_mul_shared (VObj 1) =
     Inr (VObj 6,
          heap_mul_shared @
          [\<lparr>cls = KNumber, val = Some (VInt 1), operands = []\<rparr>,
           \<lparr>cls = KMul, val = None, operands = [VObj 2, VObj 0]\<rparr>,
           \<lparr>cls = KNumber, val = Some (VInt 1), operands = []\<rparr>,
           \<lparr>cls = KMul, val = None, operands = [VObj 4, VObj 0]\<rparr>,
           \<lparr>cls = KAdd, val = None, operands = [VObj 3, VObj 5]\<rparr>]) \<and>
   (heap_mul_shared @
      [\<lparr>cls = KNumber, val = Some (VInt 1), operands = []\<rparr>,
       \<lparr>cls = KMul, val = None, operands = [VObj 2, VObj 0]\<rparr>,
       \<lparr>cls = KNumber, val = Some (VInt 1), operands = []\<rparr>,
       \<lparr>cls = KMul, val = None, operands = [VObj 4, VObj 0]\<rparr>,
       \<lparr>cls = KAdd, val = None, operands = [VObj 3, VObj 5]\<rparr>]) ! 1 = heap_mul_shared ! 1 \<and>
   length heap_mul_shared <
     length (heap_mul_shared @
      [\<lparr>cls = KNumber, val = Some (VInt 1), operands = []\<rparr>,
       \<lparr>cls = KMul, val = None, operands = [VObj 2, VObj 0]\<rparr>,
       \<lparr>cls = KNumber, val = Some (VInt 1), operands = []\<rparr>,
       \<lparr>cls = KMul, val = None, operands = [VObj 4, VObj 0]\<rparr>,
       \<lparr>cls = KAdd, val = None, operands = [VObj 3, VObj 5]\<rparr>])"
proof -
  have ev: "differentiate 2 (VStr ''x'') heap_mul_shared (VObj 1) =
     Inr (VObj 6,
          heap_mul_shared @
          [\<lparr>cls = KNumber, val = Some (VInt 1), operands = []\<rparr>,
           \<lparr>cls = KMul, val = None, operands = [VObj 2, VObj 0]\<rparr>,
           \<lparr>cls = KNumber, val = Some (VInt 1), operands = []\<rparr>,
           \<lparr>cls = KMul, val = None, operands = [VObj 4, VObj 0]\<rparr>,
           \<lparr>cls = KAdd, val = None, operands = [VObj 3, VObj 5]\<rparr>])"
    by code_simp
  have "(1::nat) < length heap_mul_shared"
    by (simp add: heap_mul_shared_def)
  with differentiate_frame[OF ev] ev show ?thesis by simp
qed

section \<open>Post-order traversal\<close>

lemma expr_dagD:
  assumes "expr_dag h" "a < length h" "op \<in> set (operands (h ! a))"
  shows "\<exists>b<a. op = VObj b"
proof -
  from assms(2) have "(a, h ! a) \<in> set (enumerate 0 h)"
    by (simp add: in_set_enumerate_eq)
  with assms(1) have "list_all (\<lambda>op. case op of VObj b \<Rightarrow> b < a | _ \<Rightarrow> False) (operands (h ! a))"
    unfolding expr_dag_def list_all_iff by fastforce
  with assms(3) have "case op of VObj b \<Rightarrow> b < a | _ \<Rightarrow> False"
    by (simp add: list_all_iff)
  then show ?thesis by (cases op) auto
qed

lemma those_map_Some:
  "(\<forall>x\<in>set xs. f x \<noteq> None) \<Longrightarrow> those (map f xs) = Some (map (\<lambda>x. the (f x)) xs)"
  by (induction xs) auto

lemma those_map_length: "those (map f xs) = Some ys \<Longrightarrow> length ys = length xs"
  by (induction xs arbitrary: ys) (auto split: option.splits)

lemma those_map_nth:
  "those (map f xs) = Some ys \<Longrightarrow> j < length xs \<Longrightarrow> f (xs ! j) = Some (ys ! j)"
  by (induction xs arbitrary: ys j) (auto split: option.splits simp: nth_Cons split: nat.splits)

lemma memo_of_Nil: "memo_of visitor [] = Map.empty"
  by (simp add: memo_of_def)

lemma memo_of_snoc:
  "memo_of visitor (cs @ [(e, results, kw)]) =
     (case visitor e results kw of Inl x \<Rightarrow> memo_of visitor cs | Inr r \<Rightarrow> (memo_of visitor cs)(e \<mapsto> r))"
  by (simp add: memo_of_def split: sum.splits)

text \<open>The three outcomes of an iteration whose top of stack is an object.\<close>

lemma step_push:
  assumes "lookup h (last (stack s)) = Some ob"
      and "filter (\<lambda>op. visited s op = None) (operands ob) \<noteq> []"
  shows "postvisitor_step h visitor kw s =
           s\<lparr>stack := butlast (stack s) @ [last (stack s)]
                        @ filter (\<lambda>op. visited s op = None) (operands ob)\<rparr>"
  using assms by (simp add: postvisitor_step_def Let_def)

lemma step_visit:
  assumes "lookup h (last (stack s)) = Some ob"
      and "filter (\<lambda>op. visited s op = None) (operands ob) = []"
  shows "\<exists>results. those (map (visited s) (operands ob)) = Some results \<and>
           postvisitor_step h visitor kw s =
             (case visitor (last (stack s)) results kw of
                Inl x \<Rightarrow> s\<lparr>stack := butlast (stack s),
                           calls := calls s @ [(last (stack s), results, kw)], raised := Some x\<rparr>
              | Inr r \<Rightarrow> s\<lparr>stack := butlast (stack s), visited := (visited s)(last (stack s) \<mapsto> r),
                           calls := calls s @ [(last (stack s), results, kw)]\<rparr>)"
proof -
  from assms(2) have "\<forall>x\<in>set (operands ob). visited s x \<noteq> None"
    by (simp add: filter_empty_conv)
  then have "those (map (visited s) (operands ob)) = Some (map (\<lambda>x. the (visited s x)) (operands ob))"
    by (rule those_map_Some)
  with assms show ?thesis
    by (simp add: postvisitor_step_def Let_def)
qed

lemma step_not_object:
  assumes "lookup h (last (stack s)) = None"
  shows "postvisitor_step h visitor kw s = s\<lparr>stack := butlast (stack s), raised := Some AttributeError\<rparr>"
  using assms by (simp add: postvisitor_step_def Let_def)


lemma pv_inv_init:
  assumes "a < length h"
  shows "pv_inv h (VObj a) visitor kw (pv_init (VObj a))"
  using assms by (simp add: pv_inv_def call_node_def call_results_def call_kwargs_def pv_init_def memo_of_Nil)

lemma hd_butlast_snoc: "butlast xs \<noteq> [] \<Longrightarrow> hd (butlast xs) = hd xs"
  by (cases xs) auto

lemma pv_inv_step:
  assumes dag: "expr_dag h" and inv: "pv_inv h expr visitor kw s" and run: "pv_running s"
  shows "pv_inv h expr visitor kw (postvisitor_step h visitor kw s)"
proof -
  let ?e = "last (stack s)" and ?stk = "butlast (stack s)"
  from run have ne: "stack s \<noteq> []" and nr: "raised s = None"
    by (simp_all add: pv_running_def)
  from ne have "?e \<in> set (stack s)" by simp
  with inv obtain a where a: "a < length h" "?e = VObj a"
    by (auto simp: pv_inv_def call_node_def call_results_def call_kwargs_def)
  then have look: "lookup h ?e = Some (h ! a)"
    by (simp add: lookup_def)
  let ?ops = "operands (h ! a)"
  let ?uv = "filter (\<lambda>op. visited s op = None) ?ops"
  from inv have stk_ok: "\<forall>v\<in>set (stack s). \<exists>a<length h. v = VObj a"
    and closed: "\<forall>v. visited s v \<noteq> None \<longrightarrow>
         (\<exists>a<length h. v = VObj a \<and> (\<forall>op\<in>set (operands (h ! a)). visited s op \<noteq> None))"
    and memo: "memo_of visitor (calls s) = visited s"
    and kws: "\<forall>c\<in>set (calls s). snd (snd c) = kw"
    and args: "\<forall>i<length (calls s). \<exists>a<length h. fst (calls s ! i) = VObj a \<and>
         those (map (memo_of visitor (take i (calls s))) (operands (h ! a)))
           = Some (fst (snd (calls s ! i)))"
    and bottom: "hd (stack s) = expr"
    and allret: "\<forall>c\<in>set (calls s). \<exists>r. call_value visitor c = Inr r"
    using ne nr by (simp_all add: pv_inv_def call_node_def call_results_def call_kwargs_def)
  have stk_sub: "\<forall>v\<in>set ?stk. \<exists>a<length h. v = VObj a"
    using stk_ok by (auto dest: in_set_butlastD)
  have hd_stk: "?stk \<noteq> [] \<Longrightarrow> hd ?stk = expr"
    using bottom by (simp add: hd_butlast_snoc)
  have top_root: "?stk = [] \<Longrightarrow> ?e = expr"
    using bottom ne by (cases "stack s") (auto split: if_splits)
  show ?thesis
  proof (cases "?uv = []")
    case False
    have step: "postvisitor_step h visitor kw s = s\<lparr>stack := ?stk @ [?e] @ ?uv\<rparr>"
      using step_push[OF look False] .
    have "\<forall>v\<in>set ?uv. \<exists>b<length h. v = VObj b"
    proof
      fix v assume "v \<in> set ?uv"
      then have "v \<in> set ?ops" by simp
      from expr_dagD[OF dag a(1) this] obtain b where "b < a" "v = VObj b" by blast
      with a(1) show "\<exists>b<length h. v = VObj b" by auto
    qed
    moreover have "hd (?stk @ [?e] @ ?uv) = expr"
      using bottom ne by (cases "stack s") (auto split: if_splits)
    ultimately show ?thesis
      unfolding step pv_inv_def call_node_def call_results_def call_kwargs_def
      using stk_ok closed memo kws args allret nr stk_sub a
      by (auto simp del: append_butlast_last_id dest: in_set_butlastD)
  next
    case True
    from step_visit[OF look True, of visitor kw] obtain results where
      res: "those (map (visited s) ?ops) = Some results"
      and step: "postvisitor_step h visitor kw s =
             (case visitor ?e results kw of
                Inl x \<Rightarrow> s\<lparr>stack := ?stk,
                           calls := calls s @ [(?e, results, kw)], raised := Some x\<rparr>
              | Inr r \<Rightarrow> s\<lparr>stack := ?stk, visited := (visited s)(?e \<mapsto> r),
                           calls := calls s @ [(?e, results, kw)]\<rparr>)"
      by blast
    from True have allvis: "\<forall>op\<in>set ?ops. visited s op \<noteq> None"
      by (simp add: filter_empty_conv)
    let ?cs = "calls s @ [(?e, results, kw)]"
    have args': "\<forall>i<length ?cs. \<exists>a<length h. fst (?cs ! i) = VObj a \<and>
         those (map (memo_of visitor (take i ?cs)) (operands (h ! a))) = Some (fst (snd (?cs ! i)))"
    proof (intro allI impI)
      fix i assume "i < length ?cs"
      then consider "i < length (calls s)" | "i = length (calls s)" by fastforce
      then show "\<exists>a<length h. fst (?cs ! i) = VObj a \<and>
         those (map (memo_of visitor (take i ?cs)) (operands (h ! a))) = Some (fst (snd (?cs ! i)))"
      proof cases
        case 1
        with args show ?thesis by (simp add: nth_append)
      next
        case 2
        with a res memo show ?thesis by auto
      qed
    qed
    have kws': "\<forall>c\<in>set ?cs. snd (snd c) = kw"
      using kws by simp
    show ?thesis
    proof (cases "visitor ?e results kw")
      case (Inl x)
      with step have s': "postvisitor_step h visitor kw s =
          s\<lparr>stack := ?stk, calls := ?cs, raised := Some x\<rparr>" by simp
      have "memo_of visitor ?cs = visited s"
        using Inl memo by (simp add: memo_of_snoc)
      moreover have "call_value visitor (?e, results, kw) = Inl x"
        using Inl by (simp add: call_value_def)
      ultimately show ?thesis
        unfolding s' pv_inv_def call_node_def call_results_def call_kwargs_def
        using stk_sub closed kws' args' hd_stk top_root allret
        by (auto simp del: append_butlast_last_id)
    next
      case (Inr r)
      with step have s': "postvisitor_step h visitor kw s =
          s\<lparr>stack := ?stk, visited := (visited s)(?e \<mapsto> r), calls := ?cs\<rparr>" by simp
      have m: "memo_of visitor ?cs = (visited s)(?e \<mapsto> r)"
        using Inr memo by (simp add: memo_of_snoc)
      have closed': "\<forall>v. ((visited s)(?e \<mapsto> r)) v \<noteq> None \<longrightarrow>
         (\<exists>a<length h. v = VObj a \<and> (\<forall>op\<in>set (operands (h ! a)). ((visited s)(?e \<mapsto> r)) op \<noteq> None))"
        using closed allvis a by (auto)
      have allret': "\<forall>c\<in>set ?cs. \<exists>r. call_value visitor c = Inr r"
        using allret Inr by (simp add: call_value_def)
      show ?thesis
        unfolding s' pv_inv_def call_node_def call_results_def call_kwargs_def
        using stk_sub closed' kws' args' hd_stk top_root m allret' allret nr
        by (auto simp del: append_butlast_last_id)
    qed
  qed
qed

lemma pv_measure_running_pos:
  assumes "pv_running s" "last (stack s) = VObj a"
  shows "0 < snd (pv_measure h s)"
  using assms by (simp add: pv_measure_def)

lemma pv_measure_stopped: "\<not> pv_running s \<Longrightarrow> pv_measure h s = (0, 0)"
  by (simp add: pv_measure_def)

lemma lex_zero_less: "0 < snd p \<Longrightarrow> ((0, 0), p) \<in> less_than <*lex*> less_than"
  by (cases p) auto

lemma pv_measure_step:
  assumes dag: "expr_dag h" and inv: "pv_inv h expr visitor kw s" and run: "pv_running s"
  shows "(pv_measure h (postvisitor_step h visitor kw s), pv_measure h s)
           \<in> less_than <*lex*> less_than"
proof -
  let ?e = "last (stack s)" and ?stk = "butlast (stack s)"
  let ?U = "VObj ` {..<length h}"
  from run have ne: "stack s \<noteq> []" and nr: "raised s = None"
    by (simp_all add: pv_running_def)
  from ne have "?e \<in> set (stack s)" by simp
  with inv obtain a where a: "a < length h" "?e = VObj a"
    by (auto simp: pv_inv_def call_node_def call_results_def call_kwargs_def)
  then have look: "lookup h ?e = Some (h ! a)"
    by (simp add: lookup_def)
  let ?ops = "operands (h ! a)"
  let ?uv = "filter (\<lambda>op. visited s op = None) ?ops"
  from inv have stk_ok: "\<forall>v\<in>set (stack s). \<exists>a<length h. v = VObj a"
    and closed: "\<forall>v. visited s v \<noteq> None \<longrightarrow>
         (\<exists>a<length h. v = VObj a \<and> (\<forall>op\<in>set (operands (h ! a)). visited s op \<noteq> None))"
    by (simp_all add: pv_inv_def call_node_def call_results_def call_kwargs_def)
  have stk_sub: "\<forall>v\<in>set ?stk. \<exists>a<length h. v = VObj a"
    using stk_ok by (auto dest: in_set_butlastD)
  have pos: "0 < snd (pv_measure h s)"
    using run a(2) by (rule pv_measure_running_pos)
  have stopped: "((0, 0), pv_measure h s) \<in> less_than <*lex*> less_than"
    using pos by (rule lex_zero_less)
  show ?thesis
  proof (cases "?uv = []")
    case False
    have step: "postvisitor_step h visitor kw s = s\<lparr>stack := ?stk @ [?e] @ ?uv\<rparr>"
      using step_push[OF look False] .
    from False have "last ?uv \<in> set ?uv" by (rule last_in_set)
    then have luv: "last ?uv \<in> set ?ops" "visited s (last ?uv) = None" by auto
    from expr_dagD[OF dag a(1) luv(1)] obtain b where b: "b < a" "last ?uv = VObj b" by blast
    have top_unvisited: "visited s ?e = None"
    proof (rule ccontr)
      assume "visited s ?e \<noteq> None"
      with closed a(2) have "\<forall>op\<in>set ?ops. visited s op \<noteq> None" by auto
      with luv show False by blast
    qed
    have "pv_running (s\<lparr>stack := ?stk @ [?e] @ ?uv\<rparr>)"
      using nr by (simp add: pv_running_def)
    then have "pv_measure h (s\<lparr>stack := ?stk @ [?e] @ ?uv\<rparr>)
                 = (card (?U - dom (visited s)), b + 1)"
      using False luv(2) b(2) by (simp add: pv_measure_def)
    moreover have "pv_measure h s = (card (?U - dom (visited s)), a + 1)"
      using run top_unvisited a(2) by (simp add: pv_measure_def)
    ultimately show ?thesis
      unfolding step using b(1) by simp
  next
    case True
    from step_visit[OF look True, of visitor kw] obtain results where
      step: "postvisitor_step h visitor kw s =
             (case visitor ?e results kw of
                Inl x \<Rightarrow> s\<lparr>stack := ?stk,
                           calls := calls s @ [(?e, results, kw)], raised := Some x\<rparr>
              | Inr r \<Rightarrow> s\<lparr>stack := ?stk, visited := (visited s)(?e \<mapsto> r),
                           calls := calls s @ [(?e, results, kw)]\<rparr>)"
      by blast
    show ?thesis
    proof (cases "visitor ?e results kw")
      case (Inl x)
      with step have "\<not> pv_running (postvisitor_step h visitor kw s)"
        by (simp add: pv_running_def)
      then show ?thesis using stopped by (simp add: pv_measure_stopped)
    next
      case (Inr r)
      let ?s' = "s\<lparr>stack := ?stk, visited := (visited s)(?e \<mapsto> r),
                           calls := calls s @ [(?e, results, kw)]\<rparr>"
      from Inr step have s': "postvisitor_step h visitor kw s = ?s'" by simp
      show ?thesis
      proof (cases "pv_running ?s'")
        case False
        then show ?thesis unfolding s' using stopped by (simp add: pv_measure_stopped)
      next
        case run': True
        then have ne': "?stk \<noteq> []" by (simp add: pv_running_def)
        then have "last ?stk \<in> set ?stk" by (rule last_in_set)
        with stk_sub obtain a' where a': "a' < length h" "last ?stk = VObj a'" by blast
        show ?thesis
        proof (cases "visited s ?e = None")
          case True
          have mem: "?e \<in> ?U - dom (visited s)"
            using a True by (auto simp: dom_def)
          have fin: "finite (?U - dom (visited s))" by simp
          have "?U - dom ((visited s)(?e \<mapsto> r)) = (?U - dom (visited s)) - {?e}"
            by auto
          with card_Diff1_less[OF fin mem]
          have "card (?U - dom ((visited s)(?e \<mapsto> r))) < card (?U - dom (visited s))"
            by simp
          then show ?thesis
            unfolding s' using run run' by (simp add: pv_measure_def)
        next
          case False
          then have "dom ((visited s)(?e \<mapsto> r)) = dom (visited s)"
            by (auto simp: dom_def)
          moreover have "length ?stk < length (stack s)"
            using ne by simp
          ultimately show ?thesis
            unfolding s' using run run' False a' a(1)
            by (auto simp: pv_measure_def)
        qed
      qed
    qed
  qed
qed

lemma pv_loop_terminates:
  assumes dag: "expr_dag h" and a: "a < length h"
  shows "\<exists>t. while_option pv_running (postvisitor_step h visitor kw) (pv_init (VObj a)) = Some t"
proof (rule wf_rel_while_option_Some[where P = "pv_inv h (VObj a) visitor kw"
        and R = "inv_image (less_than <*lex*> less_than) (pv_measure h)"])
  show "wf (inv_image (less_than <*lex*> less_than) (pv_measure h))"
    by (intro wf_inv_image wf_lex_prod wf_less_than)
  show "(postvisitor_step h visitor kw s, s) \<in> inv_image (less_than <*lex*> less_than) (pv_measure h)"
    if "pv_inv h (VObj a) visitor kw s \<and> pv_running s" for s
    using pv_measure_step[OF dag, of "VObj a" visitor kw s] that by (simp add: inv_image_def)
  show "pv_inv h (VObj a) visitor kw (postvisitor_step h visitor kw s)"
    if "pv_inv h (VObj a) visitor kw s \<and> pv_running s" for s
    using pv_inv_step[OF dag, of "VObj a" visitor kw s] that by simp
  show "pv_inv h (VObj a) visitor kw (pv_init (VObj a))"
    using a by (rule pv_inv_init)
qed

text \<open>
  When every logged call has returned, the dictionary holds for a node the result of the
  most recent call on it.
\<close>

lemma memo_of_last_call:
  assumes "\<forall>c\<in>set cs. \<exists>r. call_value visitor c = Inr r"
    and "memo_of visitor cs v = Some r"
  shows "\<exists>k<length cs. call_node (cs ! k) = v \<and> call_value visitor (cs ! k) = Inr r \<and>
           (\<forall>k'. k < k' \<and> k' < length cs \<longrightarrow> call_node (cs ! k') \<noteq> v)"
  using assms
proof (induction cs arbitrary: r rule: rev_induct)
  case Nil
  then show ?case by (simp add: memo_of_Nil)
next
  case (snoc c cs)
  obtain e results kw where c: "c = (e, results, kw)" by (cases c)
  from snoc.prems(1) c obtain r0 where r0: "visitor e results kw = Inr r0"
    by (auto simp: call_value_def)
  show ?case
  proof (cases "e = v")
    case True
    with snoc.prems(2) c r0 have "r = r0" by (simp add: memo_of_snoc)
    with True c r0 have
      "call_node ((cs @ [c]) ! length cs) = v \<and> call_value visitor ((cs @ [c]) ! length cs) = Inr r \<and>
       (\<forall>k'. length cs < k' \<and> k' < length (cs @ [c]) \<longrightarrow> call_node ((cs @ [c]) ! k') \<noteq> v)"
      by (auto simp: call_node_def call_value_def)
    then show ?thesis
      by (intro exI[of _ "length cs"]) simp
  next
    case False
    with snoc.prems(2) c r0 have "memo_of visitor cs v = Some r" by (simp add: memo_of_snoc)
    with snoc.IH snoc.prems(1) obtain k where k: "k < length cs" "call_node (cs ! k) = v"
      "call_value visitor (cs ! k) = Inr r"
      "\<forall>k'. k < k' \<and> k' < length cs \<longrightarrow> call_node (cs ! k') \<noteq> v"
      by auto
    have "\<forall>k'. k < k' \<and> k' < length (cs @ [c]) \<longrightarrow> call_node ((cs @ [c]) ! k') \<noteq> v"
    proof (intro allI impI)
      fix k' assume "k < k' \<and> k' < length (cs @ [c])"
      then consider "k < k'" "k' < length cs" | "k' = length cs" by fastforce
      then show "call_node ((cs @ [c]) ! k') \<noteq> v"
      proof cases
        case 1
        with k(4) show ?thesis by (simp add: nth_append)
      next
        case 2
        with False c show ?thesis by (simp add: call_node_def)
      qed
    qed
    with k(1-3) show ?thesis
      by (intro exI[of _ k]) (simp add: nth_append)
  qed
qed

text \<open>On an expression DAG the loop ends, in a state that satisfies the invariant.\<close>

lemma pv_loop_final:
  assumes dag: "expr_dag h" and a: "a < length h"
  shows "\<exists>t. while_option pv_running (postvisitor_step h visitor kw) (pv_init (VObj a)) = Some t \<and>
           pv_inv h (VObj a) visitor kw t \<and> \<not> pv_running t"
proof -
  from pv_loop_terminates[OF dag a, of visitor kw] obtain t where
    t: "while_option pv_running (postvisitor_step h visitor kw) (pv_init (VObj a)) = Some t"
    by blast
  have "pv_inv h (VObj a) visitor kw t"
  proof (rule while_option_rule[where P = "pv_inv h (VObj a) visitor kw", OF _ t])
    show "pv_inv h (VObj a) visitor kw (postvisitor_step h visitor kw s)"
      if "pv_inv h (VObj a) visitor kw s" "pv_running s" for s
      using dag that by (rule pv_inv_step)
    show "pv_inv h (VObj a) visitor kw (pv_init (VObj a))"
      using a by (rule pv_inv_init)
  qed
  moreover from t have "\<not> pv_running t" by (rule while_option_stop)
  ultimately show ?thesis using t by blast
qed

lemma pv_final_result:
  assumes inv: "pv_inv h expr visitor kw t" and stop: "\<not> pv_running t"
  shows "case raised t of
           Some x \<Rightarrow> calls t \<noteq> [] \<and> call_value visitor (last (calls t)) = Inl x
         | None \<Rightarrow> calls t \<noteq> [] \<and> call_node (last (calls t)) = expr \<and>
                   (\<exists>r. visited t expr = Some r \<and> call_value visitor (last (calls t)) = Inr r)"
proof (cases "raised t")
  case (Some x)
  with inv show ?thesis by (simp add: pv_inv_def)
next
  case None
  with stop have "stack t = []" by (simp add: pv_running_def)
  with inv None have ne: "calls t \<noteq> []" and root: "call_node (last (calls t)) = expr"
    and ret: "\<forall>c\<in>set (calls t). \<exists>r. call_value visitor c = Inr r"
    and memo: "memo_of visitor (calls t) = visited t"
    by (simp_all add: pv_inv_def)
  from ne ret obtain r where r: "call_value visitor (last (calls t)) = Inr r"
    by (meson last_in_set)
  obtain e results k where l: "last (calls t) = (e, results, k)" by (cases "last (calls t)")
  have "memo_of visitor (butlast (calls t) @ [(e, results, k)]) e = Some r"
    using l r by (simp add: memo_of_snoc call_value_def)
  moreover from ne l have "butlast (calls t) @ [(e, results, k)] = calls t"
    by (metis append_butlast_last_id)
  ultimately have "memo_of visitor (calls t) e = Some r" by simp
  with root l memo have "visited t expr = Some r"
    by (simp add: call_node_def)
  with None ne root r show ?thesis by simp
qed

lemma postvisitor_returns:
  assumes dag: "expr_dag h" and a: "a < length h"
  shows "\<exists>t. postvisitor h (VObj a) visitor kw =
               Some (case raised t of
                       Some x \<Rightarrow> Inl x
                     | None \<Rightarrow> (case visited t (VObj a) of None \<Rightarrow> Inl KeyError | Some r \<Rightarrow> Inr r),
                     calls t) \<and>
             pv_inv h (VObj a) visitor kw t \<and> \<not> pv_running t"
  using pv_loop_final[OF dag a, of visitor kw] by (auto simp: postvisitor_def)

lemma pv_inv_call_results:
  assumes inv: "pv_inv h expr visitor kw t" and i: "i < length (calls t)"
  shows "\<exists>b<length h. call_node (calls t ! i) = VObj b \<and>
           length (call_results (calls t ! i)) = length (operands (h ! b)) \<and>
           (\<forall>j<length (operands (h ! b)). \<exists>k<i.
              call_node (calls t ! k) = operands (h ! b) ! j \<and>
              call_value visitor (calls t ! k) = Inr (call_results (calls t ! i) ! j) \<and>
              (\<forall>k'. k < k' \<and> k' < i \<longrightarrow> call_node (calls t ! k') \<noteq> operands (h ! b) ! j))"
proof -
  let ?cs = "calls t"
  from inv i obtain b where b: "b < length h" "call_node (?cs ! i) = VObj b"
    and th: "those (map (memo_of visitor (take i ?cs)) (operands (h ! b)))
               = Some (call_results (?cs ! i))"
    by (auto simp: pv_inv_def)
  from inv have "\<forall>c\<in>set (butlast ?cs). \<exists>r. call_value visitor c = Inr r"
    by (simp add: pv_inv_def)
  moreover from i have "set (take i ?cs) \<subseteq> set (butlast ?cs)"
    by (metis take_butlast set_take_subset)
  ultimately have ret: "\<forall>c\<in>set (take i ?cs). \<exists>r. call_value visitor c = Inr r"
    by blast
  have "\<exists>k<i. call_node (?cs ! k) = operands (h ! b) ! j \<and>
              call_value visitor (?cs ! k) = Inr (call_results (?cs ! i) ! j) \<and>
              (\<forall>k'. k < k' \<and> k' < i \<longrightarrow> call_node (?cs ! k') \<noteq> operands (h ! b) ! j)"
    if j: "j < length (operands (h ! b))" for j
  proof -
    from those_map_nth[OF th j]
    have "memo_of visitor (take i ?cs) (operands (h ! b) ! j) = Some (call_results (?cs ! i) ! j)" .
    from memo_of_last_call[OF ret this] i show ?thesis
      by (auto simp: min_def)
  qed
  with b those_map_length[OF th] show ?thesis by auto
qed

text \<open>
  Claim C8. On an expression DAG \<open>postvisitor\<close> returns. Every call of the visitor is on
  a node all of whose operands have been visited before, and its positional arguments
  are, operand by operand from left to right, the results of the most recent earlier
  calls on these operands. When no call raises, the value returned is the result of the
  last call, which is the call on the root; when a call raises, it is the last call and
  \<open>postvisitor\<close> raises its exception.
\<close>

theorem postvisitor_post_order:
  assumes "expr_dag h" and "a < length h"
  shows "\<exists>res cs. postvisitor h (VObj a) visitor kw = Some (res, cs) \<and>
           (\<forall>i<length cs. \<exists>b<length h. call_node (cs ! i) = VObj b \<and>
              length (call_results (cs ! i)) = length (operands (h ! b)) \<and>
              (\<forall>j<length (operands (h ! b)). \<exists>k<i.
                 call_node (cs ! k) = operands (h ! b) ! j \<and>
                 call_value visitor (cs ! k) = Inr (call_results (cs ! i) ! j) \<and>
                 (\<forall>k'. k < k' \<and> k' < i \<longrightarrow> call_node (cs ! k') \<noteq> operands (h ! b) ! j))) \<and>
           (\<forall>r. res = Inr r \<longrightarrow>
              cs \<noteq> [] \<and> call_node (last cs) = VObj a \<and> call_value visitor (last cs) = Inr r) \<and>
           (\<forall>x. res = Inl x \<longrightarrow> cs \<noteq> [] \<and> call_value visitor (last cs) = Inl x)"
proof -
  from postvisitor_returns[OF assms, of visitor kw] obtain t where
    pv: "postvisitor h (VObj a) visitor kw =
           Some (case raised t of
                   Some x \<Rightarrow> Inl x
                 | None \<Rightarrow> (case visited t (VObj a) of None \<Rightarrow> Inl KeyError | Some r \<Rightarrow> Inr r),
                 calls t)"
    and inv: "pv_inv h (VObj a) visitor kw t" and stop: "\<not> pv_running t"
    by blast
  let ?res = "case raised t of
                Some x \<Rightarrow> Inl x
              | None \<Rightarrow> (case visited t (VObj a) of None \<Rightarrow> Inl KeyError | Some r \<Rightarrow> Inr r)"
  have args: "\<forall>i<length (calls t). \<exists>b<length h. call_node (calls t ! i) = VObj b \<and>
              length (call_results (calls t ! i)) = length (operands (h ! b)) \<and>
              (\<forall>j<length (operands (h ! b)). \<exists>k<i.
                 call_node (calls t ! k) = operands (h ! b) ! j \<and>
                 call_value visitor (calls t ! k) = Inr (call_results (calls t ! i) ! j) \<and>
                 (\<forall>k'. k < k' \<and> k' < i \<longrightarrow> call_node (calls t ! k') \<noteq> operands (h ! b) ! j))"
    using pv_inv_call_results[OF inv] by blast
  have fin: "case raised t of
           Some x \<Rightarrow> calls t \<noteq> [] \<and> call_value visitor (last (calls t)) = Inl x
         | None \<Rightarrow> calls t \<noteq> [] \<and> call_node (last (calls t)) = VObj a \<and>
                   (\<exists>r. visited t (VObj a) = Some r \<and> call_value visitor (last (calls t)) = Inr r)"
    using inv stop by (rule pv_final_result)
  have ret: "\<forall>r. ?res = Inr r \<longrightarrow>
      calls t \<noteq> [] \<and> call_node (last (calls t)) = VObj a \<and> call_value visitor (last (calls t)) = Inr r"
    using fin by (auto split: option.splits)
  have rai: "\<forall>x. ?res = Inl x \<longrightarrow> calls t \<noteq> [] \<and> call_value visitor (last (calls t)) = Inl x"
    using fin by (auto split: option.splits)
  from pv args ret rai show ?thesis by blast
qed

theorem postvisitor_post_order_witness:
  "expr_dag heap_add_ab \<and> (2::nat) < length heap_add_ab \<and>
   (\<exists>res cs. postvisitor heap_add_ab (VObj 2) (names_visitor heap_add_ab) () = Some (res, cs) \<and>
      (\<forall>i<length cs. \<exists>b<length heap_add_ab. call_node (cs ! i) = VObj b \<and>
         length (call_results (cs ! i)) = length (operands (heap_add_ab ! b)) \<and>
         (\<forall>j<length (operands (heap_add_ab ! b)). \<exists>k<i.
            call_node (cs ! k) = operands (heap_add_ab ! b) ! j \<and>
            call_value (names_visitor heap_add_ab) (cs ! k) = Inr (call_results (cs ! i) ! j) \<and>
            (\<forall>k'. k < k' \<and> k' < i \<longrightarrow> call_node (cs ! k') \<noteq> operands (heap_add_ab ! b) ! j))) \<and>
      (\<forall>r. res = Inr r \<longrightarrow>
         cs \<noteq> [] \<and> call_node (last cs) = VObj 2 \<and>
         call_value (names_visitor heap_add_ab) (last cs) = Inr r) \<and>
      (\<forall>x. res = Inl x \<longrightarrow> cs \<noteq> [] \<and> call_value (names_visitor heap_add_ab) (last cs) = Inl x))"
proof -
  have d: "expr_dag heap_add_ab"
    by (simp add: expr_dag_def heap_add_ab_def)
  have l: "(2::nat) < length heap_add_ab"
    by (simp add: heap_add_ab_def)
  from postvisitor_post_order[OF d l, of "names_visitor heap_add_ab" "()"] d l
  show ?thesis by simp
qed

text \<open>
  The run on \<open>Add(Symbol("a"), Symbol("b"))\<close>: the operands are visited \<open>b\<close> first, and
  the visitor receives for the \<open>Add\<close> node the result of \<open>a\<close>, then the result of \<open>b\<close>.
\<close>

lemma postvisitor_add_example:
  "postvisitor heap_add_ab (VObj 2) (names_visitor heap_add_ab) () =
     Some (Inr ''ab'', [(VObj 1, [], ()), (VObj 0, [], ()), (VObj 2, [''a'', ''b''], ())])"
  by code_simp

text \<open>A node that the dictionary holds has been the node of a logged call.\<close>

lemma memo_of_call_exists:
  "memo_of visitor cs v = Some r \<Longrightarrow> \<exists>c\<in>set cs. call_node c = v"
proof (induction cs arbitrary: r rule: rev_induct)
  case Nil
  then show ?case by (simp add: memo_of_Nil)
next
  case (snoc c cs)
  obtain e results kw where c: "c = (e, results, kw)" by (cases c)
  show ?case
  proof (cases "e = v")
    case True
    with c show ?thesis by (simp add: call_node_def)
  next
    case False
    with snoc.prems c have "memo_of visitor cs v = Some r"
      by (simp add: memo_of_snoc split: sum.splits)
    with snoc.IH show ?thesis by auto
  qed
qed

text \<open>The invariant makes the visited nodes closed under operands.\<close>

lemma pv_inv_reaches_visited:
  assumes inv: "pv_inv h expr visitor kw t"
    and r: "reaches h v w" and v: "visited t v \<noteq> None"
  shows "visited t w \<noteq> None"
  using r
proof (induction rule: reaches.induct)
  case root
  from v show ?case .
next
  case (operand w ob op)
  from inv operand.IH obtain a where a: "a < length h" "w = VObj a"
    and ops: "\<forall>op\<in>set (operands (h ! a)). visited t op \<noteq> None"
    by (auto simp: pv_inv_def)
  from a operand.hyps(2) have "ob = h ! a" by (simp add: lookup_def)
  with ops operand.hyps(3) show ?case by blast
qed

text \<open>
  Claim C10. On an expression DAG \<open>postvisitor\<close> returns and has called the visitor at
  least once. Every call it has made received the keyword arguments given to
  \<open>postvisitor\<close>, together with a node of the heap and, for each operand of that node
  from left to right, the result of the most recent earlier call on that operand. When
  a call raises, it is the last one and \<open>postvisitor\<close> raises its exception; otherwise
  every node of the expression, the root and whatever is reached from it through
  operand tuples, is the node of some call.
\<close>

theorem postvisitor_forwards_kwargs:
  assumes "expr_dag h" and "a < length h"
  shows "\<exists>res cs. postvisitor h (VObj a) visitor kw = Some (res, cs) \<and> cs \<noteq> [] \<and>
           (\<forall>i<length cs. call_kwargs (cs ! i) = kw \<and>
              (\<exists>b<length h. call_node (cs ! i) = VObj b \<and>
                 length (call_results (cs ! i)) = length (operands (h ! b)) \<and>
                 (\<forall>j<length (operands (h ! b)). \<exists>k<i.
                    call_node (cs ! k) = operands (h ! b) ! j \<and>
                    call_value visitor (cs ! k) = Inr (call_results (cs ! i) ! j) \<and>
                    (\<forall>k'. k < k' \<and> k' < i \<longrightarrow> call_node (cs ! k') \<noteq> operands (h ! b) ! j)))) \<and>
           (\<forall>x. res = Inl x \<longrightarrow> call_value visitor (last cs) = Inl x) \<and>
           (\<forall>r. res = Inr r \<longrightarrow>
              (\<forall>v. reaches h (VObj a) v \<longrightarrow> (\<exists>c\<in>set cs. call_node c = v \<and> call_kwargs c = kw)))"
proof -
  from postvisitor_returns[OF assms, of visitor kw] obtain t where
    pv: "postvisitor h (VObj a) visitor kw =
           Some (case raised t of
                   Some x \<Rightarrow> Inl x
                 | None \<Rightarrow> (case visited t (VObj a) of None \<Rightarrow> Inl KeyError | Some r \<Rightarrow> Inr r),
                 calls t)"
    and inv: "pv_inv h (VObj a) visitor kw t" and stop: "\<not> pv_running t"
    by blast
  let ?res = "case raised t of
                Some x \<Rightarrow> Inl x
              | None \<Rightarrow> (case visited t (VObj a) of None \<Rightarrow> Inl KeyError | Some r \<Rightarrow> Inr r)"
  have fin: "case raised t of
           Some x \<Rightarrow> calls t \<noteq> [] \<and> call_value visitor (last (calls t)) = Inl x
         | None \<Rightarrow> calls t \<noteq> [] \<and> call_node (last (calls t)) = VObj a \<and>
                   (\<exists>r. visited t (VObj a) = Some r \<and> call_value visitor (last (calls t)) = Inr r)"
    using inv stop by (rule pv_final_result)
  have ne: "calls t \<noteq> []"
    using fin by (auto split: option.splits)
  have kws: "\<forall>c\<in>set (calls t). call_kwargs c = kw"
    using inv by (simp add: pv_inv_def)
  have each: "\<forall>i<length (calls t). call_kwargs (calls t ! i) = kw \<and>
              (\<exists>b<length h. call_node (calls t ! i) = VObj b \<and>
                 length (call_results (calls t ! i)) = length (operands (h ! b)) \<and>
                 (\<forall>j<length (operands (h ! b)). \<exists>k<i.
                    call_node (calls t ! k) = operands (h ! b) ! j \<and>
                    call_value visitor (calls t ! k) = Inr (call_results (calls t ! i) ! j) \<and>
                    (\<forall>k'. k < k' \<and> k' < i \<longrightarrow>
                       call_node (calls t ! k') \<noteq> operands (h ! b) ! j)))"
  proof (intro allI impI conjI)
    fix i assume i: "i < length (calls t)"
    with kws show "call_kwargs (calls t ! i) = kw" by simp
    from pv_inv_call_results[OF inv i]
    show "\<exists>b<length h. call_node (calls t ! i) = VObj b \<and>
                 length (call_results (calls t ! i)) = length (operands (h ! b)) \<and>
                 (\<forall>j<length (operands (h ! b)). \<exists>k<i.
                    call_node (calls t ! k) = operands (h ! b) ! j \<and>
                    call_value visitor (calls t ! k) = Inr (call_results (calls t ! i) ! j) \<and>
                    (\<forall>k'. k < k' \<and> k' < i \<longrightarrow>
                       call_node (calls t ! k') \<noteq> operands (h ! b) ! j))" .
  qed
  have rai: "\<forall>x. ?res = Inl x \<longrightarrow> call_value visitor (last (calls t)) = Inl x"
    using fin by (auto split: option.splits)
  have cover: "\<forall>r. ?res = Inr r \<longrightarrow>
      (\<forall>v. reaches h (VObj a) v \<longrightarrow> (\<exists>c\<in>set (calls t). call_node c = v \<and> call_kwargs c = kw))"
  proof (intro allI impI)
    fix r v assume res: "?res = Inr r" and v: "reaches h (VObj a) v"
    from res have "visited t (VObj a) \<noteq> None"
      by (auto split: option.splits)
    with inv v have "visited t v \<noteq> None"
      by (rule pv_inv_reaches_visited)
    moreover from inv have "memo_of visitor (calls t) = visited t"
      by (simp add: pv_inv_def)
    ultimately obtain r' where "memo_of visitor (calls t) v = Some r'" by auto
    from memo_of_call_exists[OF this] kws
    show "\<exists>c\<in>set (calls t). call_node c = v \<and> call_kwargs c = kw" by blast
  qed
  from pv ne each rai cover show ?thesis by blast
qed

theorem postvisitor_forwards_kwargs_witness:
  "expr_dag heap_mul_shared \<and> (1::nat) < length heap_mul_shared \<and>
   (\<exists>res cs. postvisitor heap_mul_shared (VObj 1) (\<lambda>e results kw. Inr (kw + sum_list results))
                (5::nat) = Some (res, cs) \<and> cs \<noteq> [] \<and>
      (\<forall>i<length cs. call_kwargs (cs ! i) = 5 \<and>
         (\<exists>b<length heap_mul_shared. call_node (cs ! i) = VObj b \<and>
            length (call_results (cs ! i)) = length (operands (heap_mul_shared ! b)) \<and>
            (\<forall>j<length (operands (heap_mul_shared ! b)). \<exists>k<i.
               call_node (cs ! k) = operands (heap_mul_shared ! b) ! j \<and>
               call_value (\<lambda>e results kw. Inr (kw + sum_list results)) (cs ! k)
                 = Inr (call_results (cs ! i) ! j) \<and>
               (\<forall>k'. k < k' \<and> k' < i \<longrightarrow>
                  call_node (cs ! k') \<noteq> operands (heap_mul_shared ! b) ! j)))) \<and>
      (\<forall>x. res = Inl x \<longrightarrow>
         call_value (\<lambda>e results kw. Inr (kw + sum_list results)) (last cs) = Inl x) \<and>
      (\<forall>r. res = Inr r \<longrightarrow>
         (\<forall>v. reaches heap_mul_shared (VObj 1) v \<longrightarrow>
              (\<exists>c\<in>set cs. call_node c = v \<and> call_kwargs c = 5))))"
proof -
  have d: "expr_dag heap_mul_shared"
    by (simp add: expr_dag_def heap_mul_shared_def)
  have l: "(1::nat) < length heap_mul_shared"
    by (simp add: heap_mul_shared_def)
  from postvisitor_forwards_kwargs[OF d l, of "\<lambda>e results kw. Inr (kw + sum_list results)" 5]
  have "\<exists>res cs. postvisitor heap_mul_shared (VObj 1) (\<lambda>e results kw. Inr (kw + sum_list results))
                (5::nat) = Some (res, cs) \<and> cs \<noteq> [] \<and>
      (\<forall>i<length cs. call_kwargs (cs ! i) = 5 \<and>
         (\<exists>b<length heap_mul_shared. call_node (cs ! i) = VObj b \<and>
            length (call_results (cs ! i)) = length (operands (heap_mul_shared ! b)) \<and>
            (\<forall>j<length (operands (heap_mul_shared ! b)). \<exists>k<i.
               call_node (cs ! k) = operands (heap_mul_shared ! b) ! j \<and>
               call_value (\<lambda>e results kw. Inr (kw + sum_list results)) (cs ! k)
                 = Inr (call_results (cs ! i) ! j) \<and>
               (\<forall>k'. k < k' \<and> k' < i \<longrightarrow>
                  call_node (cs ! k') \<noteq> operands (heap_mul_shared ! b) ! j)))) \<and>
      (\<forall>x. res = Inl x \<longrightarrow>
         call_value (\<lambda>e results kw. Inr (kw + sum_list results)) (last cs) = Inl x) \<and>
      (\<forall>r. res = Inr r \<longrightarrow>
         (\<forall>v. reaches heap_mul_shared (VObj 1) v \<longrightarrow>
              (\<exists>c\<in>set cs. call_node c = v \<and> call_kwargs c = 5)))" .
  with d l show ?thesis by (intro conjI)
qed

text \<open>
  The run on \<open>Mul(x, x)\<close> with the keyword argument \<open>5\<close>: three calls, each with \<open>5\<close>, on
  the symbol (twice) and on the \<open>Mul\<close> node, which receives the two results.
\<close>

lemma postvisitor_kwargs_example:
  "postvisitor heap_mul_shared (VObj 1) (\<lambda>e results kw. Inr (kw + sum_list results)) (5::nat) =
     Some (Inr 15, [(VObj 0, [], 5), (VObj 0, [], 5), (VObj 1, [5, 5], 5)])"
  by code_simp

text \<open>
  Claim C1. \<open>x = Symbol("x"); postvisitor(Mul(x, x), visitor)\<close>: the loop pushes \<open>x\<close>
  once for each of its two occurrences in the operand tuple, and calls the visitor on
  \<open>x\<close> each time it pops it. The log holds two calls on the one symbol object.
\<close>

theorem postvisitor_shared_operand_visited_twice:
  "postvisitor heap_mul_shared (VObj 1) (\<lambda>e results kw. Inr (length results)) () =
     Some (Inr 2, [(VObj 0, [], ()), (VObj 0, [], ()), (VObj 1, [0, 0], ())])"
  by code_simp

end
